theory Spec2Isabelle
  imports Main
begin

section \<open>The tool-calling agent of Lesson 4 and the flatten helper\<close>

text \<open>
  The notebooks under verification build one small program of their own: the class
  \<open>Agent\<close> of \<^verbatim>\<open>Lesson_4_Student.ipynb\<close> (three node functions and the edges
  of a two-node graph), the loop that prints streamed tokens, and the helper
  \<open>flatten\<close> of \<^verbatim>\<open>L4-tagging-and-extraction-student.ipynb\<close>. The language model,
  the tools, the graph runtime and the checkpointer belong to the imported framework: the
  model and the tools are parameters of the embedding, the runtime and the checkpointer
  are written out below from the spec and from the edges the source declares.
\<close>

subsection \<open>Messages\<close>

type_synonym args = "(string \<times> string) list"

text \<open>A tool call is the dictionary \<^verbatim>\<open>{'name': .., 'args': .., 'id': ..}\<close>.\<close>

record tool_call =
  tc_name :: string
  tc_args :: args
  tc_id :: string

datatype message =
    SystemMessage (content: string)
  | HumanMessage (content: string)
  | AIMessage (content: string) (ai_tool_calls: "tool_call list")
  | ToolMessage (tool_call_id: string) (name: string) (content: string)

fun is_ai_message :: "message \<Rightarrow> bool" where
  "is_ai_message (AIMessage c tcs) = True"
| "is_ai_message _ = False"

fun is_tool_message :: "message \<Rightarrow> bool" where
  "is_tool_message (ToolMessage i n c) = True"
| "is_tool_message _ = False"

fun is_system_message :: "message \<Rightarrow> bool" where
  "is_system_message (SystemMessage c) = True"
| "is_system_message _ = False"

text \<open>
  What the source can raise: indexing an empty list, reading \<open>tool_calls\<close> of a message
  that is not an \<open>AIMessage\<close>, a missing key of \<open>self.tools\<close>, and whatever the model or
  a tool raises on its own.
\<close>

datatype error = IndexError | AttributeError | KeyError string | Raised string

text \<open>\<^verbatim>\<open>class AgentState(TypedDict): messages: Annotated[list[AnyMessage], operator.add]\<close>\<close>

record agent_state =
  messages :: "message list"

text \<open>The reducer of the \<open>messages\<close> key is \<open>operator.add\<close>: list concatenation.\<close>

definition reduce :: "agent_state \<Rightarrow> agent_state \<Rightarrow> agent_state" where
  "reduce old upd = \<lparr>messages = messages old @ messages upd\<rparr>"

subsection \<open>The agent\<close>

text \<open>
  The fields \<open>__init__\<close> sets: \<open>self.system\<close> (empty by default), \<open>self.tools\<close>, the
  dictionary from tool names to tools, and \<open>self.model\<close>, the model with the tools
  bound. A tool takes the arguments of a call and returns its result, already rendered
  by \<open>str\<close>, or raises. A chat model's \<open>invoke\<close> returns an \<open>AIMessage\<close>, given here
  by its content and its tool calls, or raises.
\<close>

type_synonym tool = "args \<Rightarrow> error + string"

record agent =
  system :: string
  tools :: "string \<rightharpoonup> tool"
  model :: "message list \<Rightarrow> error + (string \<times> tool_call list)"

text \<open>
  \<^verbatim>\<open>messages = state['messages']
  if self.system: messages = [SystemMessage(content=self.system)] + messages\<close>
\<close>

definition model_input :: "agent \<Rightarrow> agent_state \<Rightarrow> message list" where
  "model_input ag state =
     (if system ag \<noteq> [] then [SystemMessage (system ag)] @ messages state
      else messages state)"

definition call_openai :: "agent \<Rightarrow> agent_state \<Rightarrow> error + agent_state" where
  "call_openai ag state =
     (case model ag (model_input ag state) of
        Inl e \<Rightarrow> Inl e
      | Inr (c, tcs) \<Rightarrow> Inr \<lparr>messages = [AIMessage c tcs]\<rparr>)"

text \<open>\<^verbatim>\<open>state['messages'][-1]\<close> raises on an empty list.\<close>

definition last_message :: "agent_state \<Rightarrow> error + message" where
  "last_message state =
     (if messages state = [] then Inl IndexError else Inr (last (messages state)))"

text \<open>Only an \<open>AIMessage\<close> has the attribute \<open>tool_calls\<close>.\<close>

fun tool_calls :: "message \<Rightarrow> error + tool_call list" where
  "tool_calls (AIMessage c tcs) = Inr tcs"
| "tool_calls _ = Inl AttributeError"

definition exists_action :: "agent_state \<Rightarrow> error + bool" where
  "exists_action state =
     (case last_message state of
        Inl e \<Rightarrow> Inl e
      | Inr result \<Rightarrow>
          (case tool_calls result of
             Inl e \<Rightarrow> Inl e
           | Inr tcs \<Rightarrow> Inr (length tcs > 0)))"

text \<open>
  \<^verbatim>\<open>self.tools[t['name']].invoke(t['args'])\<close>: the lookup raises \<open>KeyError\<close> for
  a name that is not registered, and the tool may raise. In the loop of
  \<open>take_action\<close>, \<open>results\<close> is a local list, returned only when every call of
  the batch has been looked up and invoked. (The two \<open>print\<close> calls of the source
  write to the console and are not modelled.)
\<close>

definition invoke_tool :: "agent \<Rightarrow> tool_call \<Rightarrow> error + string" where
  "invoke_tool ag t =
     (case tools ag (tc_name t) of
        None \<Rightarrow> Inl (KeyError (tc_name t))
      | Some the_tool \<Rightarrow> the_tool (tc_args t))"

fun take_action_loop :: "agent \<Rightarrow> tool_call list \<Rightarrow> message list \<Rightarrow> error + message list" where
  "take_action_loop ag [] results = Inr results"
| "take_action_loop ag (t # ts) results =
     (case invoke_tool ag t of
        Inl e \<Rightarrow> Inl e
      | Inr result \<Rightarrow>
          take_action_loop ag ts
            (results @ [ToolMessage (tc_id t) (tc_name t) result]))"

definition take_action :: "agent \<Rightarrow> agent_state \<Rightarrow> error + agent_state" where
  "take_action ag state =
     (case last_message state of
        Inl e \<Rightarrow> Inl e
      | Inr m \<Rightarrow>
          (case tool_calls m of
             Inl e \<Rightarrow> Inl e
           | Inr tcs \<Rightarrow>
               (case take_action_loop ag tcs [] of
                  Inl e \<Rightarrow> Inl e
                | Inr results \<Rightarrow> Inr \<lparr>messages = results\<rparr>)))"

subsection \<open>The graph\<close>

text \<open>
  \<^verbatim>\<open>graph.add_node("llm", self.call_openai)
  graph.add_node("action", self.take_action)
  graph.add_conditional_edges("llm", self.exists_action, {True: "action", False: END})
  graph.add_edge("action", "llm")
  graph.set_entry_point("llm")\<close>
\<close>

text \<open>
  The nodes \<open>"llm"\<close> and \<open>"action"\<close> and the framework's \<open>END\<close>, which has no
  function of its own and no edge leaving it: a run that reaches it is over, and the
  runtime never executes it.
\<close>

datatype node = LLM | ACTION | END

definition entry_point :: node where
  "entry_point = LLM"

fun node_function :: "agent \<Rightarrow> node \<Rightarrow> agent_state \<Rightarrow> error + agent_state" where
  "node_function ag LLM state = call_openai ag state"
| "node_function ag ACTION state = take_action ag state"
| "node_function ag END state = Inr \<lparr>messages = []\<rparr>"

fun route :: "bool \<Rightarrow> node" where
  "route True = ACTION"
| "route False = END"

fun next_node :: "node \<Rightarrow> agent_state \<Rightarrow> error + node" where
  "next_node LLM state =
     (case exists_action state of Inl e \<Rightarrow> Inl e | Inr b \<Rightarrow> Inr (route b))"
| "next_node ACTION state = Inr LLM"
| "next_node END state = Inr END"

subsection \<open>The checkpointer and the runtime\<close>

text \<open>
  The checkpointer (\<open>SqliteSaver\<close>) and the graph runtime (\<open>graph.stream\<close>) are the
  framework's and not part of the sources; the definitions of this subsection write
  them out from the spec, from the graph the source declares and from the source's
  comment on the checkpointer.
\<close>

type_synonym store = "string \<Rightarrow> agent_state list"

definition empty_store :: store where
  "empty_store = (\<lambda>t. [])"

text \<open>
  Modelled from the spec: \<open>load(thread_id)\<close> of the Checkpoint Store, which is
  missing from the sources. A store keeps for every thread id the sequence of its
  checkpoints, oldest first; \<open>load\<close> returns the latest one, or the empty state for a
  thread never seen.
\<close>

definition load :: "store \<Rightarrow> string \<Rightarrow> agent_state" where
  "load cp t = (if cp t = [] then \<lparr>messages = []\<rparr> else last (cp t))"

text \<open>
  Modelled from the spec: \<open>save(thread_id, state)\<close> of the Checkpoint Store, which is
  missing from the sources; it appends a new checkpoint to the thread's sequence.
\<close>

definition save :: "store \<Rightarrow> string \<Rightarrow> agent_state \<Rightarrow> store" where
  "save cp t state = cp (t := cp t @ [state])"

text \<open>
  A run of the graph for one thread: the node to execute next, the store, the events
  streamed so far (each the node and the update it returned, as \<open>graph.stream\<close> yields
  them), and the exception that ended the run, if any.
\<close>

record run_state =
  node :: node
  checkpointer :: store
  emitted :: "(node \<times> agent_state) list"
  raised :: "error option"

text \<open>
  Modelled from the spec: one transition of the graph runtime, which is missing from
  the sources. It executes the current node on the thread's latest state, merges the
  update with the reducer, saves a checkpoint, and follows the edge the source declares.
  The source's comment says that a checkpointer "checkpoints the state after and between
  every node", and the spec's transition rules checkpoint after the assistant message
  and after the batch of tool messages. An exception of the node leaves the store as it
  was and ends the run.
\<close>

definition step :: "agent \<Rightarrow> string \<Rightarrow> run_state \<Rightarrow> run_state" where
  "step ag t r =
     (if node r = END \<or> raised r \<noteq> None then r
      else
        (case node_function ag (node r) (load (checkpointer r) t) of
           Inl e \<Rightarrow> r\<lparr>raised := Some e\<rparr>
         | Inr upd \<Rightarrow>
             (let state' = reduce (load (checkpointer r) t) upd;
                  cp' = save (checkpointer r) t state';
                  ev = emitted r @ [(node r, upd)]
              in (case next_node (node r) state' of
                    Inl e \<Rightarrow> r\<lparr>checkpointer := cp', emitted := ev, raised := Some e\<rparr>
                  | Inr n \<Rightarrow> r\<lparr>node := n, checkpointer := cp', emitted := ev\<rparr>))))"

text \<open>
  Modelled from the spec: the loop of the graph runtime, which is missing from the
  sources. Neither the source nor the spec bounds the number of transitions, so a run
  need not end: the fuel \<open>k\<close> is the number of node executions observed, not a limit of
  the program. A run that has reached \<open>END\<close> or raised is finished and stays as it is.
\<close>

fun run :: "nat \<Rightarrow> agent \<Rightarrow> string \<Rightarrow> run_state \<Rightarrow> run_state" where
  "run 0 ag t r = r"
| "run (Suc k) ag t r =
     (if node r = END \<or> raised r \<noteq> None then r else run k ag t (step ag t r))"

text \<open>
  Modelled from the spec: \<^verbatim>\<open>abot.graph.stream({"messages": messages}, thread)\<close>, the
  framework's entry to a turn, which is missing from the sources. It loads the state of
  the thread, merges the input with the reducer, saves, and runs the graph from its
  entry point.
\<close>

definition stream :: "nat \<Rightarrow> agent \<Rightarrow> store \<Rightarrow> string \<Rightarrow> agent_state \<Rightarrow> run_state" where
  "stream k ag cp t inp =
     run k ag t
       \<lparr>node = entry_point,
        checkpointer = save cp t (reduce (load cp t) inp),
        emitted = [],
        raised = None\<rparr>"

text \<open>The messages a run has streamed, in order.\<close>

definition produced :: "run_state \<Rightarrow> message list" where
  "produced r = concat (map (\<lambda>ev. messages (snd ev)) (emitted r))"

text \<open>
  Modelled from the spec: \<open>get_history(thread_id)\<close>, which the sources do not define.
  The history of a thread is the message list of its latest checkpoint.
\<close>

definition get_history :: "store \<Rightarrow> string \<Rightarrow> message list" where
  "get_history cp t = messages (load cp t)"

text \<open>
  A sequence of turns, each on some thread, submitted one after the other, as the cells
  of the notebook do; the result is the final store and the run of every turn.
\<close>

fun submit_seq :: "nat \<Rightarrow> agent \<Rightarrow> store \<Rightarrow> (string \<times> agent_state) list \<Rightarrow> store \<times> run_state list" where
  "submit_seq k ag cp [] = (cp, [])"
| "submit_seq k ag cp (turn # turns) =
     (let r = stream k ag cp (fst turn) (snd turn);
          rest = submit_seq k ag (checkpointer r) turns
      in (fst rest, r # snd rest))"

subsection \<open>Streaming tokens\<close>

text \<open>
  \<^verbatim>\<open>async for event in abot.graph.astream_events(...):
      kind = event["event"]
      if kind == "on_chat_model_stream":
          content = event["data"]["chunk"].content
          if content:
              print(content, end="|")\<close>
  An event is given by its kind and the content of its chunk. The loop returns
  the fragments it has printed, in order (on the console each is followed by the
  delimiter).
\<close>

record event =
  kind :: string
  chunk_content :: string

fun print_tokens :: "event list \<Rightarrow> string list \<Rightarrow> string list" where
  "print_tokens [] out = out"
| "print_tokens (ev # evs) out =
     (if kind ev = ''on_chat_model_stream'' then
        (if chunk_content ev \<noteq> [] then print_tokens evs (out @ [chunk_content ev])
         else print_tokens evs out)
      else print_tokens evs out)"

definition token_stream :: "event list \<Rightarrow> string list" where
  "token_stream evs = print_tokens evs []"

text \<open>An event of kind \<open>on_chat_model_stream\<close> with the chunk content \<open>c\<close>.\<close>

definition stream_event :: "string \<Rightarrow> event" where
  "stream_event c = \<lparr>kind = ''on_chat_model_stream'', chunk_content = c\<rparr>"

text \<open>
  Modelled from the spec: the events of one message of a turn, as the framework's
  \<open>astream_events\<close> yields them; the framework is missing from the sources. The model
  call that returns an assistant message streams it as \<open>on_chat_model_stream\<close> events,
  one per chunk (the spec's fragments of \<open>decide_streaming\<close>), between the start and
  the end event of the call; a tool message gives the events of its tool run. How a
  message is cut into chunks is the provider's matter: \<open>chunks\<close> is a parameter, and
  the theorems assume of it only that the chunks of a message, put together, are its
  content. Events of the other kinds carry data that the loop never reads.
\<close>

fun message_events :: "(message \<Rightarrow> string list) \<Rightarrow> message \<Rightarrow> event list" where
  "message_events chunks (AIMessage c tcs) =
     [\<lparr>kind = ''on_chat_model_start'', chunk_content = ''''\<rparr>]
     @ map stream_event (chunks (AIMessage c tcs))
     @ [\<lparr>kind = ''on_chat_model_end'', chunk_content = c\<rparr>]"
| "message_events chunks (ToolMessage i n c) =
     [\<lparr>kind = ''on_tool_start'', chunk_content = ''''\<rparr>,
      \<lparr>kind = ''on_tool_end'', chunk_content = c\<rparr>]"
| "message_events chunks _ = []"

text \<open>
  Modelled from the spec: \<^verbatim>\<open>abot.graph.astream_events({"messages": messages}, thread,
  version="v1")\<close>, which is missing from the sources: the events of the messages the
  run of the turn produced, in order.
\<close>

definition astream_events :: "(message \<Rightarrow> string list) \<Rightarrow> run_state \<Rightarrow> event list" where
  "astream_events chunks r = concat (map (message_events chunks) (produced r))"

subsection \<open>flatten\<close>

text \<open>
  \<^verbatim>\<open>def flatten(matrix):
      flat_list = []
      for row in matrix:
          flat_list += row
      return flat_list\<close>
\<close>

fun flatten_loop :: "'a list list \<Rightarrow> 'a list \<Rightarrow> 'a list" where
  "flatten_loop [] flat_list = flat_list"
| "flatten_loop (row # matrix) flat_list = flatten_loop matrix (flat_list @ row)"

definition flatten :: "'a list list \<Rightarrow> 'a list" where
  "flatten matrix = flatten_loop matrix []"

subsection \<open>Example agents\<close>

text \<open>
  The scenario of the spec: a search tool that answers \<open>72F sunny\<close>, and a model that
  requests one search and, once it sees a tool message, gives its final answer.
\<close>

definition search_call :: tool_call where
  "search_call = \<lparr>tc_name = ''search'', tc_args = [(''query'', ''weather sf'')], tc_id = ''c1''\<rparr>"

definition search_tool :: tool where
  "search_tool a = Inr ''72F sunny''"

definition scenario_model :: "message list \<Rightarrow> error + (string \<times> tool_call list)" where
  "scenario_model msgs =
     (if list_ex is_tool_message msgs then Inr (''It is 72F and sunny in SF.'', [])
      else Inr ('''', [search_call]))"

definition weather_agent :: agent where
  "weather_agent =
     \<lparr>system = ''You are a smart research assistant.'',
      tools = [''search'' \<mapsto> search_tool],
      model = scenario_model\<rparr>"

definition question :: agent_state where
  "question = \<lparr>messages = [HumanMessage ''What is the weather in sf?'']\<rparr>"

text \<open>The same agent with a search tool that raises.\<close>

definition broken_tool :: tool where
  "broken_tool a = Inl (Raised ''timeout'')"

definition broken_agent :: agent where
  "broken_agent = weather_agent\<lparr>tools := [''search'' \<mapsto> broken_tool]\<rparr>"

text \<open>An agent whose model asks for a tool that is not registered.\<close>

definition lookup_call :: tool_call where
  "lookup_call = \<lparr>tc_name = ''lookup'', tc_args = [(''query'', ''weather sf'')], tc_id = ''c2''\<rparr>"

definition stray_agent :: agent where
  "stray_agent = weather_agent\<lparr>model := (\<lambda>msgs. Inr ('''', [lookup_call]))\<rparr>"

text \<open>An agent whose model requests a search on every decision.\<close>

definition eager_agent :: agent where
  "eager_agent = weather_agent\<lparr>model := (\<lambda>msgs. Inr ('''', [search_call]))\<rparr>"

text \<open>
  An agent whose model asks in one batch for a search and for a tool that is not
  registered.
\<close>

definition mixed_agent :: agent where
  "mixed_agent = weather_agent\<lparr>model := (\<lambda>msgs. Inr ('''', [search_call, lookup_call]))\<rparr>"

text \<open>
  An agent whose model says something while it requests the search, and a provider
  that streams the content of a message as one chunk between two empty ones.
\<close>

definition chatty_model :: "message list \<Rightarrow> error + (string \<times> tool_call list)" where
  "chatty_model msgs =
     (if list_ex is_tool_message msgs then Inr (''It is sunny.'', [])
      else Inr (''Let me check.'', [search_call]))"

definition chatty_agent :: agent where
  "chatty_agent = weather_agent\<lparr>model := chatty_model\<rparr>"

definition plain_chunks :: "message \<Rightarrow> string list" where
  "plain_chunks m = ['''', content m, '''']"

text \<open>A second question, for a second thread.\<close>

definition follow_up :: agent_state where
  "follow_up = \<lparr>messages = [HumanMessage ''Which one is warmer?'']\<rparr>"

section \<open>Properties\<close>

subsection \<open>flatten\<close>

lemma flatten_loop_concat: "flatten_loop matrix acc = acc @ concat matrix"
  by (induction matrix arbitrary: acc) simp_all

text \<open>
  C10. \<open>flatten\<close> returns the rows joined from left to right: it is \<open>concat\<close>, it maps
  the join of two lists of rows to the join of their flattenings, a single row to
  itself, the empty list to the empty list, and \<open>[[1,2],[3,4]]\<close> to \<open>[1,2,3,4]\<close>.
\<close>

theorem flatten_is_join:
  "flatten matrix = concat matrix
   \<and> flatten (xs @ ys) = flatten xs @ flatten ys
   \<and> flatten [x] = x
   \<and> flatten ([] :: 'a list list) = []
   \<and> flatten [[1, 2], [3, 4 :: int]] = [1, 2, 3, 4]"
  by (simp add: flatten_def flatten_loop_concat)

subsection \<open>The store\<close>

lemma load_save_same: "load (save cp t st) t = st"
  by (simp add: load_def save_def)

lemma save_other: "t' \<noteq> t \<Longrightarrow> save cp t st t' = cp t'"
  by (simp add: save_def)

lemma history_save:
  "get_history (save cp t (reduce (load cp t) upd)) t = get_history cp t @ messages upd"
  by (simp add: get_history_def load_save_same reduce_def)

subsection \<open>The history only grows\<close>

text \<open>A step of the runtime does nothing, records an exception, or saves one update.\<close>

lemma step_cases:
  "step ag t r = r \<or> (\<exists>e. step ag t r = r\<lparr>raised := Some e\<rparr>)
   \<or> (\<exists>upd. node_function ag (node r) (load (checkpointer r) t) = Inr upd \<and>
        checkpointer (step ag t r) = save (checkpointer r) t (reduce (load (checkpointer r) t) upd) \<and>
        emitted (step ag t r) = emitted r @ [(node r, upd)])"
  by (auto simp: step_def Let_def split: sum.splits)

lemma step_history:
  "get_history (checkpointer (step ag t r)) t =
   get_history (checkpointer r) t @ drop (length (produced r)) (produced (step ag t r))"
  using step_cases [of ag t r]
  by (auto simp: history_save produced_def)

lemma step_history_base:
  "get_history (checkpointer r) t = base @ produced r \<Longrightarrow>
   get_history (checkpointer (step ag t r)) t = base @ produced (step ag t r)"
  using step_cases [of ag t r]
  by (auto simp: history_save produced_def)

lemma run_history_base:
  "get_history (checkpointer r) t = base @ produced r \<Longrightarrow>
   get_history (checkpointer (run k ag t r)) t = base @ produced (run k ag t r)"
  by (induction k arbitrary: r) (simp_all add: step_history_base)

lemma stream_history:
  "get_history (checkpointer (stream k ag cp t inp)) t
     = get_history cp t @ messages inp @ produced (stream k ag cp t inp)"
  unfolding stream_def
  using run_history_base [where base = "get_history cp t @ messages inp" and k = k
      and ag = ag and t = t
      and r = "\<lparr>node = entry_point, checkpointer = save cp t (reduce (load cp t) inp),
                emitted = [], raised = None\<rparr>"]
  by (simp add: history_save produced_def)

lemma submit_seq_history:
  "get_history (fst (submit_seq k ag cp (map (Pair t) inps))) t
     = get_history cp t @
       concat (map2 (\<lambda>inp r. messages inp @ produced r) inps
                 (snd (submit_seq k ag cp (map (Pair t) inps))))"
  by (induction inps arbitrary: cp) (simp_all add: Let_def stream_history)

text \<open>What a run streams are assistant and tool messages only.\<close>

lemma take_action_loop_tool_messages:
  "take_action_loop ag tcs acc = Inr out \<Longrightarrow>
   list_all (\<lambda>m. is_ai_message m \<or> is_tool_message m) acc \<Longrightarrow>
   list_all (\<lambda>m. is_ai_message m \<or> is_tool_message m) out"
  by (induction tcs arbitrary: acc) (auto split: sum.splits)

lemma node_function_loop_messages:
  "node_function ag n st = Inr upd \<Longrightarrow>
   list_all (\<lambda>m. is_ai_message m \<or> is_tool_message m) (messages upd)"
proof (cases n)
  case LLM
  assume "node_function ag n st = Inr upd"
  with LLM show ?thesis
    by (auto simp: call_openai_def split: sum.splits)
next
  case ACTION
  assume "node_function ag n st = Inr upd"
  with ACTION show ?thesis
    by (auto simp: take_action_def split: sum.splits dest: take_action_loop_tool_messages)
next
  case END
  assume "node_function ag n st = Inr upd"
  with END show ?thesis by auto
qed

lemma step_loop_messages:
  "list_all (\<lambda>m. is_ai_message m \<or> is_tool_message m) (produced r) \<Longrightarrow>
   list_all (\<lambda>m. is_ai_message m \<or> is_tool_message m) (produced (step ag t r))"
  using step_cases [of ag t r]
  by (auto simp: produced_def dest: node_function_loop_messages)

lemma run_loop_messages:
  "list_all (\<lambda>m. is_ai_message m \<or> is_tool_message m) (produced r) \<Longrightarrow>
   list_all (\<lambda>m. is_ai_message m \<or> is_tool_message m) (produced (run k ag t r))"
  by (induction k arbitrary: r) (simp_all add: step_loop_messages)

lemma stream_loop_messages:
  "list_all (\<lambda>m. is_ai_message m \<or> is_tool_message m) (produced (stream k ag cp t inp))"
  unfolding stream_def by (rule run_loop_messages) (simp add: produced_def)

text \<open>
  C1. After any sequence of turns submitted on one thread, the thread's history is the
  history before, followed turn by turn, in submission order, by the turn's input
  messages and the messages its run streamed, which are assistant and tool messages.
  This holds for one turn as well, and every single step of the runtime only appends to
  the history: what it appends is exactly what the step newly streamed. The equations
  hold whatever the fuel, so also for a run that raised or has not ended.
\<close>

theorem history_is_append_only:
  "get_history (fst (submit_seq k ag cp (map (Pair t) inps))) t
     = get_history cp t @
       concat (map2 (\<lambda>inp r. messages inp @ produced r) inps
                 (snd (submit_seq k ag cp (map (Pair t) inps))))
   \<and> get_history (checkpointer (stream k ag cp t inp)) t
       = get_history cp t @ messages inp @ produced (stream k ag cp t inp)
   \<and> list_all (\<lambda>m. is_ai_message m \<or> is_tool_message m) (produced (stream k ag cp t inp))
   \<and> get_history (checkpointer (step ag t r)) t
       = get_history (checkpointer r) t @ drop (length (produced r)) (produced (step ag t r))"
  using stream_loop_messages [of k ag cp t inp]
  by (simp only: submit_seq_history stream_history step_history)

subsection \<open>Evaluating the example agents\<close>

lemmas unfold_run =
  stream_def step_def entry_point_def empty_store_def load_def save_def reduce_def
  call_openai_def model_input_def exists_action_def last_message_def take_action_def
  invoke_tool_def get_history_def

lemmas unfold_agents =
  weather_agent_def broken_agent_def stray_agent_def eager_agent_def question_def
  scenario_model_def search_tool_def broken_tool_def search_call_def lookup_call_def
  mixed_agent_def chatty_agent_def chatty_model_def

subsection \<open>The decision step\<close>

text \<open>
  C2. A decision step whose model call returns an assistant message with the tool calls
  \<open>tcs\<close> appends that message and goes on to the tool-execution node exactly when
  \<open>tcs\<close> is not empty, and to \<open>END\<close> exactly when it is empty; at \<open>END\<close> the run is
  over, whatever fuel is left.
\<close>

theorem decision_routes_on_tool_calls:
  assumes "node r = LLM" and "raised r = None"
    and "model ag (model_input ag (load (checkpointer r) t)) = Inr (c, tcs)"
  shows "(node (step ag t r) = ACTION \<longleftrightarrow> tcs \<noteq> [])
       \<and> (node (step ag t r) = END \<longleftrightarrow> tcs = [])
       \<and> raised (step ag t r) = None
       \<and> get_history (checkpointer (step ag t r)) t
            = get_history (checkpointer r) t @ [AIMessage c tcs]
       \<and> exists_action (load (checkpointer (step ag t r)) t) = Inr (tcs \<noteq> [])
       \<and> (tcs = [] \<longrightarrow> run k ag t (step ag t r) = step ag t r)"
proof -
  let ?st = "load (checkpointer r) t"
  let ?st' = "reduce ?st \<lparr>messages = [AIMessage c tcs]\<rparr>"
  have call: "call_openai ag ?st = Inr \<lparr>messages = [AIMessage c tcs]\<rparr>"
    using assms(3) by (simp add: call_openai_def)
  have ex: "exists_action ?st' = Inr (tcs \<noteq> [])"
    by (simp add: exists_action_def last_message_def reduce_def)
  have st: "step ag t r =
      r\<lparr>node := route (tcs \<noteq> []), checkpointer := save (checkpointer r) t ?st',
        emitted := emitted r @ [(LLM, \<lparr>messages = [AIMessage c tcs]\<rparr>)]\<rparr>"
    using assms(1,2) call ex by (simp add: step_def Let_def)
  have nd: "node (step ag t r) = route (tcs \<noteq> [])"
    by (simp add: st)
  have fin: "tcs = [] \<longrightarrow> run k ag t (step ag t r) = step ag t r"
    using nd by (cases k) simp_all
  show ?thesis
    using nd fin ex assms(2)
    by (cases "tcs = []") (simp_all add: st history_save load_save_same)
qed

text \<open>
  Both branches on the scenario of the spec: the first decision requests a search and
  leads to tool execution, the second gives the answer and ends the turn.
\<close>

theorem decision_routes_on_tool_calls_witness:
  "node (stream 0 weather_agent empty_store ''1'' question) = LLM
   \<and> raised (stream 0 weather_agent empty_store ''1'' question) = None
   \<and> model weather_agent
       (model_input weather_agent
          (load (checkpointer (stream 0 weather_agent empty_store ''1'' question)) ''1''))
       = Inr ('''', [search_call])
   \<and> node (step weather_agent ''1'' (stream 0 weather_agent empty_store ''1'' question)) = ACTION
   \<and> node (stream 2 weather_agent empty_store ''1'' question) = LLM
   \<and> raised (stream 2 weather_agent empty_store ''1'' question) = None
   \<and> model weather_agent
       (model_input weather_agent
          (load (checkpointer (stream 2 weather_agent empty_store ''1'' question)) ''1''))
       = Inr (''It is 72F and sunny in SF.'', [])
   \<and> node (step weather_agent ''1'' (stream 2 weather_agent empty_store ''1'' question)) = END
   \<and> run 7 weather_agent ''1''
        (step weather_agent ''1'' (stream 2 weather_agent empty_store ''1'' question))
       = step weather_agent ''1'' (stream 2 weather_agent empty_store ''1'' question)"
proof -
  let ?r = "stream 0 weather_agent empty_store ''1'' question"
  let ?r2 = "stream 2 weather_agent empty_store ''1'' question"
  have a: "node ?r = LLM" by (simp add: stream_def entry_point_def)
  have b: "raised ?r = None" by (simp add: stream_def)
  have c: "model weather_agent (model_input weather_agent (load (checkpointer ?r) ''1''))
       = Inr ('''', [search_call])"
    by (simp add: unfold_run unfold_agents)
  have a2: "node ?r2 = LLM" by (simp add: numeral_nat unfold_run unfold_agents)
  have b2: "raised ?r2 = None" by (simp add: numeral_nat unfold_run unfold_agents)
  have c2: "model weather_agent (model_input weather_agent (load (checkpointer ?r2) ''1''))
       = Inr (''It is 72F and sunny in SF.'', [])"
    by (simp add: numeral_nat unfold_run unfold_agents)
  have first: "node (step weather_agent ''1'' ?r) = ACTION"
    using decision_routes_on_tool_calls [OF a b c, of 0] by simp
  have second: "node (step weather_agent ''1'' ?r2) = END
      \<and> run 7 weather_agent ''1'' (step weather_agent ''1'' ?r2) = step weather_agent ''1'' ?r2"
    using decision_routes_on_tool_calls [OF a2 b2 c2, of 7] by simp
  show ?thesis
    using a b c a2 b2 c2 first second by blast
qed

subsection \<open>Tool execution\<close>

text \<open>Calls that return are turned into tool messages one by one, in their order.\<close>

lemma take_action_loop_prefix:
  "map (invoke_tool ag) pre = map Inr results \<Longrightarrow>
   take_action_loop ag (pre @ rest) acc =
   take_action_loop ag rest
     (acc @ map2 (\<lambda>tc res. ToolMessage (tc_id tc) (tc_name tc) res) pre results)"
proof (induction pre arbitrary: results acc)
  case Nil
  then show ?case by simp
next
  case (Cons tc pre)
  then obtain res ress where r: "results = res # ress"
    by (cases results) auto
  with Cons.prems have "invoke_tool ag tc = Inr res" and "map (invoke_tool ag) pre = map Inr ress"
    by simp_all
  with Cons.IH [of ress] r show ?case by simp
qed

lemma take_action_at:
  "get_history cp t = hist @ [AIMessage c tcs] \<Longrightarrow>
   take_action ag (load cp t) =
     (case take_action_loop ag tcs [] of
        Inl e \<Rightarrow> Inl e | Inr results \<Rightarrow> Inr \<lparr>messages = results\<rparr>)"
  by (simp add: take_action_def last_message_def get_history_def)

lemma step_action_raises:
  "node r = ACTION \<Longrightarrow> raised r = None \<Longrightarrow>
   take_action ag (load (checkpointer r) t) = Inl e \<Longrightarrow>
   step ag t r = r\<lparr>raised := Some e\<rparr> \<and> run (Suc k) ag t r = r\<lparr>raised := Some e\<rparr>"
  by (cases k) (simp_all add: step_def)

lemma step_action_returns:
  "node r = ACTION \<Longrightarrow> raised r = None \<Longrightarrow>
   take_action ag (load (checkpointer r) t) = Inr upd \<Longrightarrow>
   step ag t r = r\<lparr>node := LLM,
      checkpointer := save (checkpointer r) t (reduce (load (checkpointer r) t) upd),
      emitted := emitted r @ [(ACTION, upd)]\<rparr>"
  by (simp add: step_def Let_def)

text \<open>
  C3, as the claim states it, fails: it speaks of every assistant message that carries
  tool calls. Here the assistant message requests a search, which is answered, and a
  tool that is not registered: tool execution raises, and the history gains no tool
  message at all, not even for the answered call.
\<close>

theorem tool_messages_counterexample:
  "node (stream (Suc 0) mixed_agent empty_store ''1'' question) = ACTION
   \<and> get_history (checkpointer (stream (Suc 0) mixed_agent empty_store ''1'' question)) ''1''
       = [HumanMessage ''What is the weather in sf?'', AIMessage '''' [search_call, lookup_call]]
   \<and> invoke_tool mixed_agent search_call = Inr ''72F sunny''
   \<and> raised (stream 5 mixed_agent empty_store ''1'' question) = Some (KeyError ''lookup'')
   \<and> get_history (checkpointer (stream 5 mixed_agent empty_store ''1'' question)) ''1''
       = [HumanMessage ''What is the weather in sf?'', AIMessage '''' [search_call, lookup_call]]"
  by (simp add: numeral_nat unfold_run unfold_agents)

text \<open>
  C3, amended. When the latest message is an assistant message with the tool calls
  \<open>tcs\<close> and every call of the batch is answered (its tool is registered and returns;
  \<open>results\<close> are the answers), tool execution returns, and appends to the history,
  exactly one tool message per call, in the order of the calls, the i-th carrying the
  id and the name of the i-th call and its answer. The calls run one after the other,
  so no other order can arise.
\<close>

theorem tool_messages_follow_requests:
  assumes "node r = ACTION" and "raised r = None"
    and "get_history (checkpointer r) t = hist @ [AIMessage c tcs]"
    and "map (invoke_tool ag) tcs = map Inr results"
  shows "take_action ag (load (checkpointer r) t)
           = Inr \<lparr>messages = map2 (\<lambda>tc res. ToolMessage (tc_id tc) (tc_name tc) res) tcs results\<rparr>
       \<and> get_history (checkpointer (step ag t r)) t
           = hist @ [AIMessage c tcs]
             @ map2 (\<lambda>tc res. ToolMessage (tc_id tc) (tc_name tc) res) tcs results
       \<and> length (map2 (\<lambda>tc res. ToolMessage (tc_id tc) (tc_name tc) res) tcs results) = length tcs
       \<and> map tool_call_id (map2 (\<lambda>tc res. ToolMessage (tc_id tc) (tc_name tc) res) tcs results)
           = map tc_id tcs
       \<and> node (step ag t r) = LLM"
proof -
  let ?out = "map2 (\<lambda>tc res. ToolMessage (tc_id tc) (tc_name tc) res) tcs results"
  have len: "length results = length tcs"
    using assms(4) map_eq_imp_length_eq by fastforce
  have loop: "take_action_loop ag tcs [] = Inr ?out"
    using take_action_loop_prefix [OF assms(4), of "[]" "[]"] by simp
  have ta: "take_action ag (load (checkpointer r) t) = Inr \<lparr>messages = ?out\<rparr>"
    by (simp add: take_action_at [OF assms(3)] loop)
  have ids: "map tool_call_id ?out = map tc_id tcs"
    using len by (induction tcs results rule: list_induct2') simp_all
  show ?thesis
    using ta ids len assms(3)
    by (simp add: step_action_returns [OF assms(1,2) ta] history_save)
qed

theorem tool_messages_follow_requests_witness:
  "node (stream (Suc 0) weather_agent empty_store ''1'' question) = ACTION
   \<and> raised (stream (Suc 0) weather_agent empty_store ''1'' question) = None
   \<and> get_history (checkpointer (stream (Suc 0) weather_agent empty_store ''1'' question)) ''1''
       = [HumanMessage ''What is the weather in sf?''] @ [AIMessage '''' [search_call]]
   \<and> map (invoke_tool weather_agent) [search_call] = map Inr [''72F sunny'']
   \<and> get_history
        (checkpointer
           (step weather_agent ''1'' (stream (Suc 0) weather_agent empty_store ''1'' question)))
        ''1''
       = [HumanMessage ''What is the weather in sf?'', AIMessage '''' [search_call],
          ToolMessage ''c1'' ''search'' ''72F sunny'']"
proof -
  let ?r = "stream (Suc 0) weather_agent empty_store ''1'' question"
  have a: "node ?r = ACTION" by (simp add: unfold_run unfold_agents)
  have b: "raised ?r = None" by (simp add: unfold_run unfold_agents)
  have c: "get_history (checkpointer ?r) ''1''
       = [HumanMessage ''What is the weather in sf?''] @ [AIMessage '''' [search_call]]"
    by (simp add: unfold_run unfold_agents)
  have d: "map (invoke_tool weather_agent) [search_call] = map Inr [''72F sunny'']"
    by (simp add: unfold_run unfold_agents)
  show ?thesis
    using tool_messages_follow_requests [OF a b c d] a b c d by (simp add: search_call_def)
qed

subsection \<open>A tool that raises\<close>

text \<open>
  C4, as the claim states it, fails: with a search tool that raises, the run ends with
  the tool's own exception, and the history holds the user message and the assistant's
  request but no tool message.
\<close>

theorem tool_exception_counterexample:
  "raised (stream 5 broken_agent empty_store ''1'' question) = Some (Raised ''timeout'')
   \<and> get_history (checkpointer (stream 5 broken_agent empty_store ''1'' question)) ''1''
       = [HumanMessage ''What is the weather in sf?'', AIMessage '''' [search_call]]"
  by (simp add: numeral_nat unfold_run unfold_agents)

text \<open>
  C4, amended. When a call of the batch reaches a registered tool that raises \<open>e\<close>, the
  calls before it having been answered, \<open>take_action\<close> raises \<open>e\<close> itself, unwrapped;
  the run ends with \<open>e\<close>; nothing is saved, so the history stays as it was when tool
  execution began and no tool message of the batch is appended.
\<close>

theorem tool_exception_propagates:
  assumes "node r = ACTION" and "raised r = None"
    and "get_history (checkpointer r) t = hist @ [AIMessage c (pre @ tc # post)]"
    and "map (invoke_tool ag) pre = map Inr results"
    and "tools ag (tc_name tc) = Some f" and "f (tc_args tc) = Inl e"
  shows "take_action ag (load (checkpointer r) t) = Inl e
       \<and> step ag t r = r\<lparr>raised := Some e\<rparr>
       \<and> run (Suc k) ag t r = r\<lparr>raised := Some e\<rparr>
       \<and> get_history (checkpointer (run (Suc k) ag t r)) t
           = hist @ [AIMessage c (pre @ tc # post)]"
proof -
  have "invoke_tool ag tc = Inl e"
    using assms(5,6) by (simp add: invoke_tool_def)
  then have "take_action_loop ag (pre @ tc # post) [] = Inl e"
    by (simp add: take_action_loop_prefix [OF assms(4)])
  then have ta: "take_action ag (load (checkpointer r) t) = Inl e"
    by (simp add: take_action_at [OF assms(3)])
  show ?thesis
    using ta step_action_raises [OF assms(1,2) ta, of k] assms(3) by simp
qed

theorem tool_exception_propagates_witness:
  "node (stream (Suc 0) broken_agent empty_store ''1'' question) = ACTION
   \<and> raised (stream (Suc 0) broken_agent empty_store ''1'' question) = None
   \<and> get_history (checkpointer (stream (Suc 0) broken_agent empty_store ''1'' question)) ''1''
       = [HumanMessage ''What is the weather in sf?''] @ [AIMessage '''' ([] @ search_call # [])]
   \<and> map (invoke_tool broken_agent) [] = map Inr []
   \<and> tools broken_agent (tc_name search_call) = Some broken_tool
   \<and> broken_tool (tc_args search_call) = Inl (Raised ''timeout'')
   \<and> raised (run (Suc 0) broken_agent ''1''
               (stream (Suc 0) broken_agent empty_store ''1'' question))
       = Some (Raised ''timeout'')"
proof -
  let ?r = "stream (Suc 0) broken_agent empty_store ''1'' question"
  have a: "node ?r = ACTION" by (simp add: unfold_run unfold_agents)
  have b: "raised ?r = None" by (simp add: unfold_run unfold_agents)
  have c: "get_history (checkpointer ?r) ''1''
       = [HumanMessage ''What is the weather in sf?''] @ [AIMessage '''' ([] @ search_call # [])]"
    by (simp add: unfold_run unfold_agents)
  have d: "map (invoke_tool broken_agent) [] = map Inr []"
    by simp
  have e: "tools broken_agent (tc_name search_call) = Some broken_tool"
    by (simp add: unfold_agents)
  have f: "broken_tool (tc_args search_call) = Inl (Raised ''timeout'')"
    by (simp add: unfold_agents)
  have "run (Suc 0) broken_agent ''1'' ?r = ?r\<lparr>raised := Some (Raised ''timeout'')\<rparr>"
    using tool_exception_propagates [OF a b c d e f, of 0] by blast
  then have "raised (run (Suc 0) broken_agent ''1'' ?r) = Some (Raised ''timeout'')"
    by (simp only: run_state.simps run_state.update_convs run_state.select_convs) simp
  then show ?thesis
    using a b c d e f by blast
qed

subsection \<open>A tool that is not registered\<close>

text \<open>
  C5, as the claim states it, fails: when the model asks for a tool that is not
  registered, the run ends with \<open>KeyError\<close>, but the history of the thread, empty before
  the call, now holds the user message and the assistant message with the unresolved
  call.
\<close>

theorem unknown_tool_counterexample:
  "raised (stream 5 stray_agent empty_store ''1'' question) = Some (KeyError ''lookup'')
   \<and> get_history empty_store ''1'' = []
   \<and> get_history (checkpointer (stream 5 stray_agent empty_store ''1'' question)) ''1''
       = [HumanMessage ''What is the weather in sf?'', AIMessage '''' [lookup_call]]"
  by (simp add: numeral_nat unfold_run unfold_agents)

text \<open>
  C5, amended. When a call of the batch names a tool that is not registered, the calls
  before it having been answered, \<open>take_action\<close> raises \<open>KeyError\<close> with that name and
  the run ends with it; the store is left exactly as it was when tool execution began:
  no tool message of the batch is appended, and the history still ends with the
  assistant message that carries the request.
\<close>

theorem unknown_tool_aborts_batch:
  assumes "node r = ACTION" and "raised r = None"
    and "get_history (checkpointer r) t = hist @ [AIMessage c (pre @ tc # post)]"
    and "map (invoke_tool ag) pre = map Inr results"
    and "tools ag (tc_name tc) = None"
  shows "take_action ag (load (checkpointer r) t) = Inl (KeyError (tc_name tc))
       \<and> run (Suc k) ag t r = r\<lparr>raised := Some (KeyError (tc_name tc))\<rparr>
       \<and> checkpointer (run (Suc k) ag t r) = checkpointer r
       \<and> get_history (checkpointer (run (Suc k) ag t r)) t
           = hist @ [AIMessage c (pre @ tc # post)]"
proof -
  have "invoke_tool ag tc = Inl (KeyError (tc_name tc))"
    using assms(5) by (simp add: invoke_tool_def)
  then have "take_action_loop ag (pre @ tc # post) [] = Inl (KeyError (tc_name tc))"
    by (simp add: take_action_loop_prefix [OF assms(4)])
  then have ta: "take_action ag (load (checkpointer r) t) = Inl (KeyError (tc_name tc))"
    by (simp add: take_action_at [OF assms(3)])
  show ?thesis
    using ta step_action_raises [OF assms(1,2) ta, of k] assms(3) by simp
qed

theorem unknown_tool_aborts_batch_witness:
  "node (stream (Suc 0) stray_agent empty_store ''1'' question) = ACTION
   \<and> raised (stream (Suc 0) stray_agent empty_store ''1'' question) = None
   \<and> get_history (checkpointer (stream (Suc 0) stray_agent empty_store ''1'' question)) ''1''
       = [HumanMessage ''What is the weather in sf?''] @ [AIMessage '''' ([] @ lookup_call # [])]
   \<and> map (invoke_tool stray_agent) [] = map Inr []
   \<and> tools stray_agent (tc_name lookup_call) = None
   \<and> take_action stray_agent
        (load (checkpointer (stream (Suc 0) stray_agent empty_store ''1'' question)) ''1'')
       = Inl (KeyError ''lookup'')"
proof -
  let ?r = "stream (Suc 0) stray_agent empty_store ''1'' question"
  have a: "node ?r = ACTION" by (simp add: unfold_run unfold_agents)
  have b: "raised ?r = None" by (simp add: unfold_run unfold_agents)
  have c: "get_history (checkpointer ?r) ''1''
       = [HumanMessage ''What is the weather in sf?''] @ [AIMessage '''' ([] @ lookup_call # [])]"
    by (simp add: unfold_run unfold_agents)
  have d: "map (invoke_tool stray_agent) [] = map Inr []"
    by simp
  have e: "tools stray_agent (tc_name lookup_call) = None"
    by (simp add: unfold_agents)
  have n: "tc_name lookup_call = ''lookup''"
    by (simp add: lookup_call_def)
  show ?thesis
    using unknown_tool_aborts_batch [OF a b c d e, of 0] a b c d e unfolding n by blast
qed

subsection \<open>Threads do not see each other\<close>

lemma step_other: "t' \<noteq> t \<Longrightarrow> checkpointer (step ag t r) t' = checkpointer r t'"
  using step_cases [of ag t r] by (auto simp: save_other)

lemma run_other: "t' \<noteq> t \<Longrightarrow> checkpointer (run k ag t r) t' = checkpointer r t'"
  by (induction k arbitrary: r) (simp_all add: step_other)

lemma stream_other: "t' \<noteq> t \<Longrightarrow> checkpointer (stream k ag cp t inp) t' = cp t'"
  by (simp add: stream_def run_other save_other)

text \<open>A step on thread \<open>t\<close> reads nothing of the store but the checkpoints of \<open>t\<close>.\<close>

lemma step_local:
  assumes "node r1 = node r2" "raised r1 = raised r2" "emitted r1 = emitted r2"
    "checkpointer r1 t = checkpointer r2 t"
  shows "node (step ag t r1) = node (step ag t r2)
     \<and> raised (step ag t r1) = raised (step ag t r2)
     \<and> emitted (step ag t r1) = emitted (step ag t r2)
     \<and> checkpointer (step ag t r1) t = checkpointer (step ag t r2) t"
proof -
  have l: "load (checkpointer r1) t = load (checkpointer r2) t"
    using assms(4) by (simp add: load_def)
  show ?thesis
    using assms l by (simp add: step_def Let_def save_def split: sum.splits)
qed

lemma run_local:
  "node r1 = node r2 \<Longrightarrow> raised r1 = raised r2 \<Longrightarrow> emitted r1 = emitted r2 \<Longrightarrow>
    checkpointer r1 t = checkpointer r2 t \<Longrightarrow>
   node (run k ag t r1) = node (run k ag t r2)
     \<and> raised (run k ag t r1) = raised (run k ag t r2)
     \<and> emitted (run k ag t r1) = emitted (run k ag t r2)
     \<and> checkpointer (run k ag t r1) t = checkpointer (run k ag t r2) t"
proof (induction k arbitrary: r1 r2)
  case 0
  then show ?case by simp
next
  case (Suc k)
  note s = step_local [of r1 r2 t ag, OF Suc.prems]
  show ?case
    using Suc.IH [of "step ag t r1" "step ag t r2"] s Suc.prems by simp
qed

lemma stream_local:
  assumes "cp1 t = cp2 t"
  shows "node (stream k ag cp1 t inp) = node (stream k ag cp2 t inp)
     \<and> raised (stream k ag cp1 t inp) = raised (stream k ag cp2 t inp)
     \<and> emitted (stream k ag cp1 t inp) = emitted (stream k ag cp2 t inp)
     \<and> checkpointer (stream k ag cp1 t inp) t = checkpointer (stream k ag cp2 t inp) t"
  unfolding stream_def
  using assms by (intro run_local) (simp_all add: save_def load_def)

text \<open>
  Of an interleaved sequence of turns, thread \<open>t\<close> sees only its own: its checkpoints
  and the events of its runs are those of the sequence with every other thread's turns
  removed.
\<close>

lemma submit_seq_project:
  "cp1 t = cp2 t \<Longrightarrow>
   fst (submit_seq k ag cp1 turns) t
     = fst (submit_seq k ag cp2 (filter (\<lambda>turn. fst turn = t) turns)) t
   \<and> map emitted
        (map snd (filter (\<lambda>p. fst (fst p) = t) (zip turns (snd (submit_seq k ag cp1 turns)))))
     = map emitted (snd (submit_seq k ag cp2 (filter (\<lambda>turn. fst turn = t) turns)))"
proof (induction turns arbitrary: cp1 cp2)
  case Nil
  then show ?case by simp
next
  case (Cons turn turns)
  show ?case
  proof (cases "fst turn = t")
    case True
    note l = stream_local [of cp1 t cp2 k ag "snd turn", OF Cons.prems]
    then have "checkpointer (stream k ag cp1 t (snd turn)) t
        = checkpointer (stream k ag cp2 t (snd turn)) t"
      by blast
    from Cons.IH [of "checkpointer (stream k ag cp1 t (snd turn))"
        "checkpointer (stream k ag cp2 t (snd turn))", OF this] l True show ?thesis
      by (simp add: Let_def)
  next
    case False
    then have "checkpointer (stream k ag cp1 (fst turn) (snd turn)) t = cp2 t"
      using Cons.prems by (simp add: stream_other)
    from Cons.IH [of "checkpointer (stream k ag cp1 (fst turn) (snd turn))" cp2, OF this] False
    show ?thesis
      by (simp add: Let_def)
  qed
qed

text \<open>
  C6. For two distinct thread ids: a turn on the first leaves the checkpoints and the
  history of the second untouched; what is stored for the second has no effect on the
  history or on the events of a turn on the first; and after any interleaving of turns,
  the history of each of the two threads, and the events its runs streamed, are what
  its own turns alone produce.
\<close>

theorem threads_are_isolated:
  assumes "t1 \<noteq> t2"
  shows "checkpointer (stream k ag cp t1 inp) t2 = cp t2
     \<and> get_history (checkpointer (stream k ag cp t1 inp)) t2 = get_history cp t2
     \<and> get_history (checkpointer (stream k ag (cp (t2 := other)) t1 inp)) t1
         = get_history (checkpointer (stream k ag cp t1 inp)) t1
     \<and> emitted (stream k ag (cp (t2 := other)) t1 inp) = emitted (stream k ag cp t1 inp)
     \<and> get_history (fst (submit_seq k ag cp turns)) t1
         = get_history (fst (submit_seq k ag cp (filter (\<lambda>turn. fst turn = t1) turns))) t1
     \<and> get_history (fst (submit_seq k ag cp turns)) t2
         = get_history (fst (submit_seq k ag cp (filter (\<lambda>turn. fst turn = t2) turns))) t2
     \<and> map emitted
          (map snd (filter (\<lambda>p. fst (fst p) = t1) (zip turns (snd (submit_seq k ag cp turns)))))
         = map emitted (snd (submit_seq k ag cp (filter (\<lambda>turn. fst turn = t1) turns)))"
proof -
  have a: "checkpointer (stream k ag cp t1 inp) t2 = cp t2"
    using assms by (simp add: stream_other)
  have b: "(cp (t2 := other)) t1 = cp t1"
    using assms by simp
  note c = stream_local [of "cp (t2 := other)" t1 cp k ag inp, OF b]
  have d: "\<And>t. fst (submit_seq k ag cp turns) t
     = fst (submit_seq k ag cp (filter (\<lambda>turn. fst turn = t) turns)) t"
    using submit_seq_project [of cp _ cp k ag turns] by blast
  have e: "map emitted
          (map snd (filter (\<lambda>p. fst (fst p) = t1) (zip turns (snd (submit_seq k ag cp turns)))))
         = map emitted (snd (submit_seq k ag cp (filter (\<lambda>turn. fst turn = t1) turns)))"
    using submit_seq_project [of cp t1 cp k ag turns] by blast
  show ?thesis
    using a c d e by (simp add: get_history_def load_def)
qed

theorem threads_are_isolated_witness:
  "''1'' \<noteq> ''2''
   \<and> get_history (checkpointer (stream 5 weather_agent empty_store ''1'' question)) ''2'' = []
   \<and> get_history
        (fst (submit_seq 5 weather_agent empty_store
                [(''1'', question), (''2'', follow_up), (''1'', follow_up)])) ''2''
       = get_history (fst (submit_seq 5 weather_agent empty_store [(''2'', follow_up)])) ''2''"
proof -
  have h: "''1'' \<noteq> ''2''" by simp
  show ?thesis
    using threads_are_isolated [OF h, of 5 weather_agent empty_store question _
        "[(''1'', question), (''2'', follow_up), (''1'', follow_up)]"] h
    by (simp add: get_history_def load_def empty_store_def)
qed

subsection \<open>The system preamble\<close>

lemma take_action_loop_no_system:
  "take_action_loop ag tcs acc = Inr out \<Longrightarrow>
   filter is_system_message out = filter is_system_message acc"
  by (induction tcs arbitrary: acc) (auto split: sum.splits)

lemma node_function_no_system:
  "node_function ag n st = Inr upd \<Longrightarrow> filter is_system_message (messages upd) = []"
proof (cases n)
  case LLM
  assume "node_function ag n st = Inr upd"
  with LLM show ?thesis
    by (auto simp: call_openai_def split: sum.splits)
next
  case ACTION
  assume "node_function ag n st = Inr upd"
  with ACTION show ?thesis
    by (auto simp: take_action_def split: sum.splits dest: take_action_loop_no_system)
next
  case END
  assume "node_function ag n st = Inr upd"
  with END show ?thesis by auto
qed

lemma step_no_system:
  "filter is_system_message (get_history (checkpointer (step ag t r)) t)
     = filter is_system_message (get_history (checkpointer r) t)"
  using step_cases [of ag t r]
  by (auto simp: history_save dest: node_function_no_system)

lemma run_no_system:
  "filter is_system_message (get_history (checkpointer (run k ag t r)) t)
     = filter is_system_message (get_history (checkpointer r) t)"
  by (induction k arbitrary: r) (simp_all add: step_no_system)

lemma stream_no_system:
  "filter is_system_message (get_history (checkpointer (stream k ag cp t inp)) t)
     = filter is_system_message (get_history cp t) @ filter is_system_message (messages inp)"
  by (simp add: stream_def run_no_system history_save)

text \<open>
  C8, as the claim states it, fails. After a whole turn of an agent with a preamble, the
  stored state starts with the user message and holds no system message: the preamble
  was never appended to it. And no check for a preamble at position 0 is made: on a
  state that already starts with the preamble, the model is passed it twice.
\<close>

theorem preamble_counterexample:
  "system weather_agent = ''You are a smart research assistant.''
   \<and> get_history (checkpointer (stream 5 weather_agent empty_store ''1'' question)) ''1''
       = [HumanMessage ''What is the weather in sf?'', AIMessage '''' [search_call],
          ToolMessage ''c1'' ''search'' ''72F sunny'', AIMessage ''It is 72F and sunny in SF.'' []]
   \<and> model_input weather_agent
        \<lparr>messages = [SystemMessage (system weather_agent), HumanMessage ''hi'']\<rparr>
       = [SystemMessage (system weather_agent), SystemMessage (system weather_agent),
          HumanMessage ''hi'']"
  by (simp add: numeral_nat unfold_run unfold_agents)

text \<open>
  C8, amended. With a non-empty preamble, every model invocation is passed the preamble
  followed by the stored messages; the state itself is not changed by that. The loop
  never stores a system message: after a turn, the system messages of the history are
  those it held before and those of the input. So when neither the stored history nor
  the input holds a system message, the history holds none at any point of the turn
  (\<open>k\<close> is arbitrary), and the sequence passed to the model there holds the preamble
  exactly once, at position 0.
\<close>

theorem preamble_is_prepended_per_invocation:
  assumes "system ag \<noteq> []"
  shows "model_input ag st = SystemMessage (system ag) # messages st
     \<and> filter is_system_message (get_history (checkpointer (stream k ag cp t inp)) t)
         = filter is_system_message (get_history cp t) @ filter is_system_message (messages inp)
     \<and> (filter is_system_message (get_history cp t) = []
          \<and> filter is_system_message (messages inp) = [] \<longrightarrow>
        filter is_system_message (get_history (checkpointer (stream k ag cp t inp)) t) = []
        \<and> filter is_system_message (model_input ag (load (checkpointer (stream k ag cp t inp)) t))
            = [SystemMessage (system ag)]
        \<and> hd (model_input ag (load (checkpointer (stream k ag cp t inp)) t))
            = SystemMessage (system ag))"
  using assms by (simp add: model_input_def stream_no_system get_history_def [symmetric])

theorem preamble_is_prepended_per_invocation_witness:
  "system weather_agent \<noteq> []
   \<and> filter is_system_message (get_history empty_store ''1'') = []
   \<and> filter is_system_message (messages question) = []
   \<and> model_input weather_agent question
      = [SystemMessage ''You are a smart research assistant.'',
         HumanMessage ''What is the weather in sf?'']
   \<and> filter is_system_message
        (model_input weather_agent
           (load (checkpointer (stream 5 weather_agent empty_store ''1'' question)) ''1''))
       = [SystemMessage ''You are a smart research assistant.'']"
proof -
  have h: "system weather_agent \<noteq> []" by (simp add: weather_agent_def)
  have e: "filter is_system_message (get_history empty_store ''1'') = []"
    by (simp add: get_history_def load_def empty_store_def)
  have q: "filter is_system_message (messages question) = []"
    by (simp add: question_def)
  have s: "system weather_agent = ''You are a smart research assistant.''"
    by (simp add: weather_agent_def)
  note th = preamble_is_prepended_per_invocation [OF h, of question 5 empty_store "''1''" question]
  have "model_input weather_agent question
      = SystemMessage (system weather_agent) # messages question"
    using th by blast
  moreover have "filter is_system_message
        (model_input weather_agent
           (load (checkpointer (stream 5 weather_agent empty_store ''1'' question)) ''1''))
       = [SystemMessage (system weather_agent)]"
    using th e q by blast
  ultimately show ?thesis
    using h e q by (simp add: s question_def)
qed

subsection \<open>No bound on the number of cycles\<close>

lemma step_llm_returns:
  "node r = LLM \<Longrightarrow> raised r = None \<Longrightarrow>
   model ag (model_input ag (load (checkpointer r) t)) = Inr (c, tcs) \<Longrightarrow>
   step ag t r =
     r\<lparr>node := route (tcs \<noteq> []),
       checkpointer := save (checkpointer r) t
          (reduce (load (checkpointer r) t) \<lparr>messages = [AIMessage c tcs]\<rparr>),
       emitted := emitted r @ [(LLM, \<lparr>messages = [AIMessage c tcs]\<rparr>)]\<rparr>"
  by (simp add: step_def Let_def call_openai_def exists_action_def last_message_def reduce_def)

lemma take_action_answers:
  "get_history cp t = hist @ [AIMessage c tcs] \<Longrightarrow>
   map (invoke_tool ag) tcs = map Inr results \<Longrightarrow>
   take_action ag (load cp t) =
     Inr \<lparr>messages = map2 (\<lambda>tc res. ToolMessage (tc_id tc) (tc_name tc) res) tcs results\<rparr>"
  using take_action_loop_prefix [of ag tcs results "[]" "[]"]
  by (simp add: take_action_at)

text \<open>
  With a model that requests tools on every decision, and tools that answer, a run that
  is about to decide, or about to execute an answerable batch, takes one more step and
  is again in such a state, at the other node.
\<close>

lemma eager_step:
  assumes H: "\<forall>msgs. \<exists>c tcs results. model ag msgs = Inr (c, tcs) \<and> tcs \<noteq> []
                 \<and> map (invoke_tool ag) tcs = map Inr results"
    and "raised r = None"
    and "node r = LLM \<or> (node r = ACTION \<and> (\<exists>hist c tcs results.
           get_history (checkpointer r) t = hist @ [AIMessage c tcs]
           \<and> map (invoke_tool ag) tcs = map Inr results))"
  shows "raised (step ag t r) = None
       \<and> node (step ag t r) = (if node r = LLM then ACTION else LLM)
       \<and> map fst (emitted (step ag t r)) = map fst (emitted r) @ [node r]
       \<and> (node (step ag t r) = ACTION \<longrightarrow> (\<exists>hist c tcs results.
           get_history (checkpointer (step ag t r)) t = hist @ [AIMessage c tcs]
           \<and> map (invoke_tool ag) tcs = map Inr results))"
proof (cases "node r = LLM")
  case True
  from H obtain c tcs results
    where m: "model ag (model_input ag (load (checkpointer r) t)) = Inr (c, tcs)"
    and ne: "tcs \<noteq> []" and ans: "map (invoke_tool ag) tcs = map Inr results"
    by blast
  have hist: "get_history (checkpointer (step ag t r)) t
      = get_history (checkpointer r) t @ [AIMessage c tcs]"
    by (simp add: step_llm_returns [OF True assms(2) m] history_save)
  show ?thesis
    using True assms(2) ne ans hist
    by (auto simp: step_llm_returns [OF True assms(2) m])
next
  case False
  with assms(3) obtain hist c tcs results where a: "node r = ACTION"
    and h: "get_history (checkpointer r) t = hist @ [AIMessage c tcs]"
    and ans: "map (invoke_tool ag) tcs = map Inr results"
    by blast
  show ?thesis
    using a assms(2)
    by (simp add: step_action_returns [OF a assms(2) take_action_answers [OF h ans]])
qed

lemma eager_run:
  assumes H: "\<forall>msgs. \<exists>c tcs results. model ag msgs = Inr (c, tcs) \<and> tcs \<noteq> []
                 \<and> map (invoke_tool ag) tcs = map Inr results"
  shows "raised r = None \<Longrightarrow>
    node r = LLM \<or> (node r = ACTION \<and> (\<exists>hist c tcs results.
           get_history (checkpointer r) t = hist @ [AIMessage c tcs]
           \<and> map (invoke_tool ag) tcs = map Inr results)) \<Longrightarrow>
    node r = (if even j then LLM else ACTION) \<Longrightarrow>
    map fst (emitted r) = map (\<lambda>i. if even i then LLM else ACTION) [0..<j] \<Longrightarrow>
    raised (run k ag t r) = None
    \<and> node (run k ag t r) = (if even (j + k) then LLM else ACTION)
    \<and> map fst (emitted (run k ag t r)) = map (\<lambda>i. if even i then LLM else ACTION) [0..<j + k]"
proof (induction k arbitrary: r j)
  case 0
  then show ?case by simp
next
  case (Suc k)
  note st = eager_step [OF H Suc.prems(1,2)]
  have n: "node r \<noteq> END" using Suc.prems(2) by auto
  have a: "raised (step ag t r) = None" using st by blast
  have b: "node (step ag t r) = LLM \<or> (node (step ag t r) = ACTION \<and> (\<exists>hist c tcs results.
           get_history (checkpointer (step ag t r)) t = hist @ [AIMessage c tcs]
           \<and> map (invoke_tool ag) tcs = map Inr results))"
    using st by (cases "node r = LLM") auto
  have c: "node (step ag t r) = (if even (Suc j) then LLM else ACTION)"
    using st Suc.prems(3) by auto
  have d: "map fst (emitted (step ag t r)) = map (\<lambda>i. if even i then LLM else ACTION) [0..<Suc j]"
    using st Suc.prems(3,4) by simp
  show ?case
    using Suc.IH [OF a b c d] n Suc.prems(1) by simp
qed

text \<open>
  C9. Nothing in the loop counts iterations. With a model that answers every decision
  with a non-empty tool-call request (and tools that answer), a single turn never
  reaches \<open>END\<close> and never raises: whatever the number \<open>k\<close> of node executions
  observed, the run has executed exactly \<open>k\<close> nodes, alternating decision and tool
  execution, and is still going.
\<close>

theorem no_iteration_bound:
  assumes "\<forall>msgs. \<exists>c tcs results. model ag msgs = Inr (c, tcs) \<and> tcs \<noteq> []
                 \<and> map (invoke_tool ag) tcs = map Inr results"
  shows "node (stream k ag cp t inp) \<noteq> END
       \<and> raised (stream k ag cp t inp) = None
       \<and> map fst (emitted (stream k ag cp t inp))
           = map (\<lambda>i. if even i then LLM else ACTION) [0..<k]
       \<and> length (emitted (stream k ag cp t inp)) = k"
proof -
  have main: "raised (stream k ag cp t inp) = None
       \<and> node (stream k ag cp t inp) = (if even k then LLM else ACTION)
       \<and> map fst (emitted (stream k ag cp t inp))
           = map (\<lambda>i. if even i then LLM else ACTION) [0..<k]"
    unfolding stream_def
    using eager_run [OF assms, where j = 0 and k = k and t = t
       and r = "\<lparr>node = entry_point, checkpointer = save cp t (reduce (load cp t) inp),
                  emitted = [], raised = None\<rparr>"]
    by (simp add: entry_point_def)
  then have "length (map fst (emitted (stream k ag cp t inp)))
      = length (map (\<lambda>i. if even i then LLM else ACTION) [0..<k])"
    by (simp only:)
  then have "length (emitted (stream k ag cp t inp)) = k"
    by simp
  with main show ?thesis by simp
qed

theorem no_iteration_bound_witness:
  "(\<forall>msgs. \<exists>c tcs results. model eager_agent msgs = Inr (c, tcs) \<and> tcs \<noteq> []
                 \<and> map (invoke_tool eager_agent) tcs = map Inr results)
   \<and> node (stream 1000 eager_agent empty_store ''1'' question) \<noteq> END
   \<and> length (emitted (stream 1000 eager_agent empty_store ''1'' question)) = 1000"
proof -
  have h: "\<forall>msgs. \<exists>c tcs results. model eager_agent msgs = Inr (c, tcs) \<and> tcs \<noteq> []
                 \<and> map (invoke_tool eager_agent) tcs = map Inr results"
  proof
    fix msgs
    have "model eager_agent msgs = Inr ('''', [search_call]) \<and> [search_call] \<noteq> []
        \<and> map (invoke_tool eager_agent) [search_call] = map Inr [''72F sunny'']"
      by (simp add: unfold_agents invoke_tool_def)
    then show "\<exists>c tcs results. model eager_agent msgs = Inr (c, tcs) \<and> tcs \<noteq> []
                 \<and> map (invoke_tool eager_agent) tcs = map Inr results"
      by blast
  qed
  show ?thesis
    using no_iteration_bound [OF h, of 1000 empty_store "''1''" question] h by blast
qed

subsection \<open>Streamed tokens\<close>

lemma print_tokens_filter:
  "print_tokens evs out =
   out @ filter (\<lambda>c. c \<noteq> [])
          (map chunk_content (filter (\<lambda>ev. kind ev = ''on_chat_model_stream'') evs))"
  by (induction evs arbitrary: out) simp_all

lemma concat_filter_nonempty: "concat (filter (\<lambda>c. c \<noteq> []) xs) = concat xs"
  by (induction xs) simp_all

text \<open>The model-stream events of a run carry the chunks of its assistant messages.\<close>

lemma stream_chunks_of_message:
  "map chunk_content (filter (\<lambda>ev. kind ev = ''on_chat_model_stream'') (message_events chunks m))
     = (if is_ai_message m then chunks m else [])"
  by (cases m) (simp_all add: stream_event_def comp_def)

lemma stream_chunks_of_messages:
  "map chunk_content
     (filter (\<lambda>ev. kind ev = ''on_chat_model_stream'') (concat (map (message_events chunks) ms)))
     = concat (map chunks (filter is_ai_message ms))"
  by (induction ms) (simp_all add: stream_chunks_of_message)

lemma token_stream_of_run:
  "token_stream (astream_events chunks r)
     = filter (\<lambda>c. c \<noteq> []) (concat (map chunks (filter is_ai_message (produced r))))"
  by (simp add: token_stream_def print_tokens_filter astream_events_def stream_chunks_of_messages)

lemma concat_chunks:
  "\<forall>m. concat (chunks m) = content m \<Longrightarrow>
   concat (concat (map chunks ms)) = concat (map content ms)"
  by (induction ms) simp_all

text \<open>
  In a run, every decision but the one that leads to \<open>END\<close> requests tools, and the
  decision that leads to \<open>END\<close> requests none and is the last message produced.
\<close>

lemma take_action_loop_only_tools:
  "take_action_loop ag tcs acc = Inr out \<Longrightarrow> list_all is_tool_message acc \<Longrightarrow>
   list_all is_tool_message out"
  by (induction tcs arbitrary: acc) (auto split: sum.splits)

lemma take_action_only_tools:
  "take_action ag st = Inr upd \<Longrightarrow> list_all is_tool_message (messages upd)"
  by (auto simp: take_action_def split: sum.splits dest: take_action_loop_only_tools)

lemma tool_not_ai: "is_tool_message m \<Longrightarrow> \<not> is_ai_message m"
  by (cases m) simp_all

lemma produced_raised [simp]: "produced (r\<lparr>raised := e\<rparr>) = produced r"
  by (simp add: produced_def)

lemma step_decisions:
  assumes "node r \<noteq> END"
    and "\<forall>m \<in> set (produced r). is_ai_message m \<longrightarrow> ai_tool_calls m \<noteq> []"
  shows "(node (step ag t r) \<noteq> END \<longrightarrow>
           (\<forall>m \<in> set (produced (step ag t r)). is_ai_message m \<longrightarrow> ai_tool_calls m \<noteq> []))
       \<and> (node (step ag t r) = END \<longrightarrow>
           (\<exists>ms c. produced (step ag t r) = ms @ [AIMessage c []]
              \<and> (\<forall>m \<in> set ms. is_ai_message m \<longrightarrow> ai_tool_calls m \<noteq> [])))"
proof (cases "raised r = None")
  case False
  then have "step ag t r = r" by (simp add: step_def)
  with assms show ?thesis by simp
next
  case True
  show ?thesis
  proof (cases "node r")
    case LLM
    show ?thesis
    proof (cases "model ag (model_input ag (load (checkpointer r) t))")
      case (Inl e)
      then have "step ag t r = r\<lparr>raised := Some e\<rparr>"
        using LLM True by (simp add: step_def call_openai_def)
      with assms show ?thesis by simp
    next
      case (Inr p)
      obtain c tcs where p: "p = (c, tcs)" by (cases p)
      have st: "produced (step ag t r) = produced r @ [AIMessage c tcs]"
        and nd: "node (step ag t r) = route (tcs \<noteq> [])"
        using step_llm_returns [OF LLM True Inr [unfolded p]] by (simp_all add: produced_def)
      show ?thesis
        using assms(2) st nd by (cases "tcs = []") auto
    qed
  next
    case ACTION
    show ?thesis
    proof (cases "take_action ag (load (checkpointer r) t)")
      case (Inl e)
      then have "step ag t r = r\<lparr>raised := Some e\<rparr>"
        using step_action_raises [OF ACTION True Inl, of 0] by simp
      with assms show ?thesis by simp
    next
      case (Inr upd)
      have st: "produced (step ag t r) = produced r @ messages upd"
        and nd: "node (step ag t r) = LLM"
        using step_action_returns [OF ACTION True Inr] by (simp_all add: produced_def)
      have "\<forall>m \<in> set (messages upd). \<not> is_ai_message m"
        using take_action_only_tools [OF Inr] tool_not_ai by (auto simp: list_all_iff)
      then show ?thesis
        using assms(2) st nd by auto
    qed
  next
    case END
    with assms show ?thesis by simp
  qed
qed

lemma run_decisions:
  "node r \<noteq> END \<Longrightarrow>
   \<forall>m \<in> set (produced r). is_ai_message m \<longrightarrow> ai_tool_calls m \<noteq> [] \<Longrightarrow>
   node (run k ag t r) = END \<Longrightarrow>
   \<exists>ms c. produced (run k ag t r) = ms @ [AIMessage c []]
      \<and> (\<forall>m \<in> set ms. is_ai_message m \<longrightarrow> ai_tool_calls m \<noteq> [])"
proof (induction k arbitrary: r)
  case 0
  then show ?case by simp
next
  case (Suc k)
  show ?case
  proof (cases "raised r = None")
    case False
    with Suc.prems show ?thesis by simp
  next
    case True
    note s = step_decisions [OF Suc.prems(1,2), of ag t]
    have r: "run (Suc k) ag t r = run k ag t (step ag t r)"
      using True Suc.prems(1) by simp
    show ?thesis
    proof (cases "node (step ag t r) = END")
      case e: True
      then have "run k ag t (step ag t r) = step ag t r" by (cases k) simp_all
      with s e r show ?thesis by simp
    next
      case False
      with s have "\<forall>m \<in> set (produced (step ag t r)). is_ai_message m \<longrightarrow> ai_tool_calls m \<noteq> []"
        by blast
      from Suc.IH [OF False this] Suc.prems(3) r show ?thesis by simp
    qed
  qed
qed

lemma stream_decisions:
  "node (stream k ag cp t inp) = END \<Longrightarrow>
   \<exists>ms c. produced (stream k ag cp t inp) = ms @ [AIMessage c []]
      \<and> (\<forall>m \<in> set ms. is_ai_message m \<longrightarrow> ai_tool_calls m \<noteq> [])"
  unfolding stream_def
  by (rule run_decisions) (simp_all add: entry_point_def produced_def)

text \<open>
  C7, as the claim states it, fails. The loop prints the non-empty chunks of every model
  call of the turn and never asks whether the decision is final. Here the model says
  \<open>Let me check.\<close> while it requests the search and then answers \<open>It is sunny.\<close>: the
  turn resolves to that final text, but the fragments printed, put together, are both
  texts.
\<close>

theorem token_stream_counterexample:
  "node (stream 5 chatty_agent empty_store ''1'' question) = END
   \<and> last (get_history (checkpointer (stream 5 chatty_agent empty_store ''1'' question)) ''1'')
       = AIMessage ''It is sunny.'' []
   \<and> token_stream (astream_events plain_chunks (stream 5 chatty_agent empty_store ''1'' question))
       = [''Let me check.'', ''It is sunny.'']
   \<and> concat (token_stream
                (astream_events plain_chunks (stream 5 chatty_agent empty_store ''1'' question)))
       = ''Let me check.It is sunny.''"
  by (simp add: numeral_nat unfold_run unfold_agents token_stream_def astream_events_def
      produced_def plain_chunks_def stream_event_def)

text \<open>
  C7, amended. Let the chunks of every message, put together, be its content. Then for
  every turn, whatever its fuel: the loop prints only non-empty fragments; the fragments
  put together are the text contents of all the assistant messages of the turn, in
  order, whether they request tools or not; and when the turn has reached \<open>END\<close> and
  every assistant message of the turn that requests tools has empty content, the last
  message of the history is the final decision and the fragments put together are
  exactly its text.
\<close>

theorem token_stream_reconstructs_decisions:
  assumes "\<forall>m. concat (chunks m) = content m"
  shows "(\<forall>frag \<in> set (token_stream (astream_events chunks (stream k ag cp t inp))). frag \<noteq> [])
     \<and> concat (token_stream (astream_events chunks (stream k ag cp t inp)))
         = concat (map content (filter is_ai_message (produced (stream k ag cp t inp))))
     \<and> (node (stream k ag cp t inp) = END
          \<and> (\<forall>m \<in> set (produced (stream k ag cp t inp)).
                is_ai_message m \<and> ai_tool_calls m \<noteq> [] \<longrightarrow> content m = [])
        \<longrightarrow> (\<exists>c. last (get_history (checkpointer (stream k ag cp t inp)) t) = AIMessage c []
                \<and> concat (token_stream (astream_events chunks (stream k ag cp t inp))) = c))"
proof -
  let ?r = "stream k ag cp t inp"
  have a: "\<forall>frag \<in> set (token_stream (astream_events chunks ?r)). frag \<noteq> []"
    by (simp add: token_stream_of_run)
  have b: "concat (token_stream (astream_events chunks ?r))
         = concat (map content (filter is_ai_message (produced ?r)))"
    by (simp add: token_stream_of_run concat_filter_nonempty concat_chunks [OF assms])
  have c: "\<exists>c. last (get_history (checkpointer ?r) t) = AIMessage c []
                \<and> concat (token_stream (astream_events chunks ?r)) = c"
    if e: "node ?r = END"
      and q: "\<forall>m \<in> set (produced ?r). is_ai_message m \<and> ai_tool_calls m \<noteq> [] \<longrightarrow> content m = []"
  proof -
    from stream_decisions [OF e] obtain ms c where p: "produced ?r = ms @ [AIMessage c []]"
      and ms: "\<forall>m \<in> set ms. is_ai_message m \<longrightarrow> ai_tool_calls m \<noteq> []"
      by blast
    have "\<forall>m \<in> set (filter is_ai_message ms). content m = []"
      using q ms p by auto
    then have "concat (map content (filter is_ai_message ms)) = []"
      by simp
    then have "concat (token_stream (astream_events chunks ?r)) = c"
      by (simp add: b p)
    moreover have "last (get_history (checkpointer ?r) t) = AIMessage c []"
      by (simp add: stream_history p)
    ultimately show ?thesis by blast
  qed
  show ?thesis using a b c by blast
qed

text \<open>
  The scenario of the spec: the decision that requests the search has empty content, and
  the fragments are the final answer.
\<close>

theorem token_stream_reconstructs_decisions_witness:
  "(\<forall>m. concat (plain_chunks m) = content m)
   \<and> node (stream 5 weather_agent empty_store ''1'' question) = END
   \<and> produced (stream 5 weather_agent empty_store ''1'' question)
       = [AIMessage '''' [search_call], ToolMessage ''c1'' ''search'' ''72F sunny'',
          AIMessage ''It is 72F and sunny in SF.'' []]
   \<and> last (get_history (checkpointer (stream 5 weather_agent empty_store ''1'' question)) ''1'')
       = AIMessage ''It is 72F and sunny in SF.'' []
   \<and> concat (token_stream
                (astream_events plain_chunks (stream 5 weather_agent empty_store ''1'' question)))
       = ''It is 72F and sunny in SF.''"
proof -
  let ?r = "stream 5 weather_agent empty_store ''1'' question"
  have h: "\<forall>m. concat (plain_chunks m) = content m"
    by (simp add: plain_chunks_def)
  have e: "node ?r = END"
    by (simp add: numeral_nat unfold_run unfold_agents)
  have p: "produced ?r
       = [AIMessage '''' [search_call], ToolMessage ''c1'' ''search'' ''72F sunny'',
          AIMessage ''It is 72F and sunny in SF.'' []]"
    by (simp add: numeral_nat unfold_run unfold_agents produced_def)
  have q: "\<forall>m \<in> set (produced ?r). is_ai_message m \<and> ai_tool_calls m \<noteq> [] \<longrightarrow> content m = []"
    by (simp add: p)
  have l: "last (get_history (checkpointer ?r) ''1'') = AIMessage ''It is 72F and sunny in SF.'' []"
    by (simp add: numeral_nat unfold_run unfold_agents)
  from token_stream_reconstructs_decisions [OF h, of 5 weather_agent empty_store "''1''" question]
    e q
  obtain c where "last (get_history (checkpointer ?r) ''1'') = AIMessage c []"
    and "concat (token_stream (astream_events plain_chunks ?r)) = c"
    by blast
  with l have "concat (token_stream (astream_events plain_chunks ?r))
      = ''It is 72F and sunny in SF.''"
    by simp
  with h e p l show ?thesis by blast
qed

end
